theory Spec2Isabelle
  imports Main "HOL-Library.Word"
begin

section \<open>Data model\<close>

text \<open>
  The package \<open>run\<close> supervises one runnable under a configurable policy.
  Go's \<open>uint64\<close> counters are 64-bit words (\<open>+\<close> wraps); a \<open>time.Duration\<close> is a
  signed 64-bit number of nanoseconds, kept as a word and read with \<open>sint\<close>; an
  instant of the clock is an integer number of nanoseconds. The capacity of a channel
  (Go's platform-sized \<open>uint\<close>) is a natural number.
\<close>

type_synonym uint64 = "64 word"
type_synonym Duration = "64 word"
type_synonym Time = int

subsection \<open>Panic values and errors (panic.go)\<close>

text \<open>
  The value of a panic is an \<open>interface{}\<close>: nil, a string (the sentinel of a nil
  runnable is one), a runtime error raised by Go itself, or any other value, of a type
  \<open>'v\<close> left open. A panic with the value nil is what \<open>panic(nil)\<close> raises under the
  semantics of Go before 1.21 (still selected by \<open>GODEBUG=panicnil=1\<close> or an older
  \<open>go\<close> directive); \<open>recover()\<close> then stops the panic and returns nil. Since
  Go 1.21 the runtime raises a runtime error in its place.
\<close>

datatype 'v panic_value = NilV | StringV string | RuntimeErrorV string | OtherV 'v

text \<open>\<open>const NilRunnable = "attempted to run a nil Runnable"\<close>\<close>

definition NilRunnable :: string where
  "NilRunnable = ''attempted to run a nil Runnable''"

text \<open>The runtime error of calling a nil function value.\<close>

definition nil_dereference :: "'v panic_value" where
  "nil_dereference =
     RuntimeErrorV ''runtime error: invalid memory address or nil pointer dereference''"

text \<open>
  An \<open>error\<close> is either an ordinary error, given by its message, or the
  \<open>RunnablePanic{Value}\<close> of panic.go. A nil error is \<open>None\<close> of \<open>'v error option\<close>.
\<close>

datatype 'v error = ErrorString string | RunnablePanic (Value: "'v panic_value")



subsection \<open>Contexts\<close>

text \<open>
  The contexts of Go's package \<open>context\<close>, as far as the engine uses them. A context is
  the caller's root context (named by a number; like \<open>context.Background()\<close> it has no
  deadline), the cancellable child that \<open>context.WithCancel\<close> returns, or the child
  with a deadline of its own that \<open>context.WithDeadline\<close> makes.
\<close>

datatype "context" = Caller nat | WithCancel "context" | TimerCtx "context" Time

text \<open>\<open>ctx.Deadline()\<close>: a cancellable child has the deadline of its parent.\<close>

fun Deadline :: "context \<Rightarrow> Time option" where
  "Deadline (Caller n) = None"
| "Deadline (WithCancel p) = Deadline p"
| "Deadline (TimerCtx p d) = Some d"

text \<open>
  \<open>context.WithDeadline(parent, d)\<close>: when the deadline of the parent is already before
  \<open>d\<close>, the result is \<open>WithCancel(parent)\<close>. \<open>context.WithTimeout(parent, timeout)\<close>
  is \<open>WithDeadline(parent, time.Now().Add(timeout))\<close>; the clock reading is an argument.
\<close>

definition WithDeadline :: "context \<Rightarrow> Time \<Rightarrow> context" where
  "WithDeadline parent d =
     (case Deadline parent of
        Some cur \<Rightarrow> if cur < d then WithCancel parent else TimerCtx parent d
      | None \<Rightarrow> TimerCtx parent d)"

definition WithTimeout :: "context \<Rightarrow> Duration \<Rightarrow> Time \<Rightarrow> context" where
  "WithTimeout parent d now = WithDeadline parent (now + sint d)"


subsection \<open>Options (options.go)\<close>

record recurrenceOptions =
  recur :: bool
  period :: Duration

record constraintOptions =
  timeout :: Duration
  runLimit :: uint64

type_synonym BackoffFn = "uint64 \<Rightarrow> Duration"

text \<open>The field \<open>backoff\<close> is a function value, nil (\<open>None\<close>) when unset.\<close>

record restartOptions =
  restartOnError :: bool
  restartLimit :: uint64
  resetOnSuccess :: bool
  backoff :: "BackoffFn option"

record panicOptions =
  calm :: bool

record options =
  errChanSize :: nat
  recurring :: recurrenceOptions
  constrained :: constraintOptions
  restartable :: restartOptions
  recoverable :: panicOptions

text \<open>\<open>new(options)\<close>: every field has its zero value.\<close>

definition new_options :: options where
  "new_options =
     \<lparr> errChanSize = 0,
       recurring = \<lparr> recur = False, period = 0 \<rparr>,
       constrained = \<lparr> timeout = 0, runLimit = 0 \<rparr>,
       restartable = \<lparr> restartOnError = False, restartLimit = 0,
                       resetOnSuccess = False, backoff = None \<rparr>,
       recoverable = \<lparr> calm = False \<rparr> \<rparr>"

text \<open>\<open>ConstantBackoff\<close> returns the backoff function that ignores the count.\<close>

definition ConstantBackoff :: "Duration \<Rightarrow> BackoffFn" where
  "ConstantBackoff d = (\<lambda>_. d)"

text \<open>
  An \<open>Option\<close> is a function from \<open>*options\<close> to \<open>*options\<close>. The fields of
  \<open>options\<close> are not exported, so the option values are the closures that the nine
  exported constructors return: a value of this datatype names the constructor and the
  arguments it was called with, and \<open>apply_Option\<close> is the body of its closure.
  \<open>RestartLimit\<close> replaces a nil backoff function by \<open>ConstantBackoff(0)\<close>.
\<close>

datatype Option =
    WithChanBuffer nat
  | Recur bool
  | Period Duration
  | Timeout Duration
  | RunLimit uint64
  | Restart bool
  | RestartLimit uint64 "BackoffFn option"
  | ResetOnSuccess bool
  | Recover bool

fun apply_Option :: "Option \<Rightarrow> options \<Rightarrow> options" where
  "apply_Option (WithChanBuffer sz) cfg = cfg\<lparr>errChanSize := sz\<rparr>"
| "apply_Option (Recur b) cfg = cfg\<lparr>recurring := (recurring cfg)\<lparr>recur := b\<rparr>\<rparr>"
| "apply_Option (Period p) cfg = cfg\<lparr>recurring := (recurring cfg)\<lparr>period := p\<rparr>\<rparr>"
| "apply_Option (Timeout t) cfg = cfg\<lparr>constrained := (constrained cfg)\<lparr>timeout := t\<rparr>\<rparr>"
| "apply_Option (RunLimit limit) cfg =
     cfg\<lparr>constrained := (constrained cfg)\<lparr>runLimit := limit\<rparr>\<rparr>"
| "apply_Option (Restart b) cfg =
     cfg\<lparr>restartable := (restartable cfg)\<lparr>restartOnError := b\<rparr>\<rparr>"
| "apply_Option (RestartLimit limit backoffFn) cfg =
     (let boff = (case backoffFn of None \<Rightarrow> ConstantBackoff 0 | Some fn \<Rightarrow> fn)
      in cfg\<lparr>restartable := (restartable cfg)\<lparr>restartLimit := limit, backoff := Some boff\<rparr>\<rparr>)"
| "apply_Option (ResetOnSuccess b) cfg =
     cfg\<lparr>restartable := (restartable cfg)\<lparr>resetOnSuccess := b\<rparr>\<rparr>"
| "apply_Option (Recover b) cfg = cfg\<lparr>recoverable := (recoverable cfg)\<lparr>calm := b\<rparr>\<rparr>"

text \<open>The method \<open>calm\<close> of \<open>*options\<close>: \<open>(o != nil) && o.recoverable.calm\<close>.\<close>

definition options_calm :: "options option \<Rightarrow> bool" where
  "options_calm os = (case os of None \<Rightarrow> False | Some cfg \<Rightarrow> calm (recoverable cfg))"

subsection \<open>Runnables and instances (runnable.go, instance.go)\<close>

text \<open>
  An execution of a runnable returns an error (nil on success) or panics. A Go function
  may keep state between its calls, so a runnable is a function of the number of calls
  made before and of the context it is given.
\<close>

datatype 'v outcome = Returns "'v error option" | Panics "'v panic_value"

type_synonym 'v Runnable = "nat \<Rightarrow> context \<Rightarrow> 'v outcome"

text \<open>
  The field \<open>r\<close> of the source is \<open>runnable\<close> here; \<open>once\<close> is the flag of the
  \<open>sync.Once\<close>: set when its function has been run.
\<close>

record 'v Instance =
  runnable :: "'v Runnable option"
  opts :: "options option"
  runs :: uint64
  failedRuns :: uint64
  once :: bool

text \<open>\<open>Runnable.run\<close>: a nil runnable panics with the sentinel.\<close>

definition Runnable_run :: "'v Runnable option \<Rightarrow> nat \<Rightarrow> context \<Rightarrow> 'v outcome" where
  "Runnable_run f n ctx =
     (case f of None \<Rightarrow> Panics (StringV NilRunnable) | Some g \<Rightarrow> g n ctx)"

text \<open>\<open>New\<close> applies the options in order to \<open>new(options)\<close>.\<close>

definition configure :: "Option list \<Rightarrow> options" where
  "configure os = foldl (\<lambda>runnableOpts opt. apply_Option opt runnableOpts) new_options os"

definition New :: "'v Runnable option \<Rightarrow> Option list \<Rightarrow> 'v Instance" where
  "New f os =
     \<lparr> runnable = f, opts = Some (configure os), runs = 0, failedRuns = 0, once = False \<rparr>"

section \<open>The rerun decision\<close>

text \<open>
  \<open>Instance.rerun\<close> updates the counters and returns whether to run again and after
  which delay. Calling the backoff function when it is nil is a runtime panic: the
  result is the updated instance with either the panic value or the decision.
\<close>

definition rerun ::
  "'v Instance \<Rightarrow> 'v error option \<Rightarrow> 'v Instance \<times> ('v panic_value + bool \<times> Duration)" where
  "rerun i err =
     (case opts i of
        None \<Rightarrow> (i, Inr (False, 0))
      | Some cfg \<Rightarrow>
          (case err of
             None \<Rightarrow>
               (let i1 = i\<lparr>runs := runs i + 1\<rparr>;
                    i2 = (if restartOnError (restartable cfg) then i1\<lparr>failedRuns := 0\<rparr> else i1);
                    decision = (if recur (recurring cfg) then (True, period (recurring cfg))
                                else (False, 0));
                    cOpts = constrained cfg
                in if runLimit cOpts \<noteq> 0 \<and> runLimit cOpts \<le> runs i2
                   then (i2, Inr (False, 0))
                   else (i2, Inr decision))
           | Some e \<Rightarrow>
               (let i1 = i\<lparr>failedRuns := failedRuns i + 1\<rparr>;
                    rOpts = restartable cfg
                in if restartOnError rOpts
                   then (let failLimit = restartLimit rOpts
                         in if failLimit = 0 \<or> failedRuns i1 < failLimit
                            then (case backoff rOpts of
                                    None \<Rightarrow> (i1, Inl nil_dereference)
                                  | Some b \<Rightarrow> (i1, Inr (True, b (failedRuns i1))))
                            else (i1, Inr (False, 0)))
                   else (i1, Inr (False, 0)))))"

section \<open>One execution\<close>

text \<open>
  \<open>withContextTimeout\<close> derives the context of one execution; \<open>now\<close> is the clock
  reading at the call.
\<close>

definition withContextTimeout :: "'v Instance \<Rightarrow> context \<Rightarrow> Time \<Rightarrow> context" where
  "withContextTimeout i ctx now =
     (case opts i of
        None \<Rightarrow> WithCancel ctx
      | Some cfg \<Rightarrow>
          if timeout (constrained cfg) \<noteq> 0
          then WithTimeout ctx (timeout (constrained cfg)) now
          else WithCancel ctx)"

text \<open>
  What the engine does is recorded as a trace of events: the body of the runnable is
  entered with a context, the cancellation function of a context is called, an error is
  sent on the outcome stream, the stream is closed. A send that blocks is resumed by the
  consumer, which is taken to drain the stream.
\<close>

datatype 'v event = Invoke "context" | Cancel "context" | Send "'v error" | Close

text \<open>
  The anonymous function of the loop: derive the context, defer its cancellation, run.
  The deferred \<open>cancel()\<close> runs on a return and on a panic alike; a nil runnable panics
  before any body is entered.
\<close>

definition execute ::
  "'v Instance \<Rightarrow> context \<Rightarrow> Time \<Rightarrow> nat \<Rightarrow> 'v event list \<times> 'v outcome" where
  "execute i ctx now n =
     (let ctxt = withContextTimeout i ctx now
      in ((case runnable i of None \<Rightarrow> [] | Some g \<Rightarrow> [Invoke ctxt]) @ [Cancel ctxt],
          Runnable_run (runnable i) n ctxt))"

section \<open>The supervised loop\<close>

text \<open>
  The environment of a run: what the \<open>select\<close> of iteration \<open>n\<close> observes when it
  waits for a delay (the delay elapsed, or the parent context was done first, with the
  value of \<open>ctx.Err()\<close>), and the clock reading of that iteration.
\<close>

datatype 'v waited = Elapsed | Done "'v error option"

record 'v world =
  select :: "nat \<Rightarrow> Duration \<Rightarrow> 'v waited"
  clock :: "nat \<Rightarrow> Time"

text \<open>
  The \<open>for\<close> loop of \<open>runCh\<close>, from iteration \<open>n\<close> on, with the delay \<open>after\<close> and
  the trace so far. It returns the instance, the trace and the panic that is unwinding
  the goroutine, if any; a loop that never ends has no result (\<open>None\<close>).
\<close>

type_synonym 'v unwinding = "'v Instance \<times> 'v event list \<times> 'v panic_value option"

partial_function (option) runCh_loop ::
  "'v world \<Rightarrow> context \<Rightarrow> 'v Instance \<Rightarrow> nat \<Rightarrow> Duration \<Rightarrow> 'v event list
     \<Rightarrow> 'v unwinding option" where
  "runCh_loop w ctx i n after tr =
     (case select w n after of
        Done cerr \<Rightarrow> Some (i, tr @ (case cerr of None \<Rightarrow> [] | Some e \<Rightarrow> [Send e]), None)
      | Elapsed \<Rightarrow>
          (case execute i ctx (clock w n) n of
             (evs, Panics v) \<Rightarrow> Some (i, tr @ evs, Some v)
           | (evs, Returns err) \<Rightarrow>
               (let tr' = tr @ evs @ (case err of None \<Rightarrow> [] | Some e \<Rightarrow> [Send e])
                in case rerun i err of
                     (i', Inl v) \<Rightarrow> Some (i', tr', Some v)
                   | (i', Inr (again, after')) \<Rightarrow>
                       if again then runCh_loop w ctx i' (Suc n) after' tr'
                       else Some (i', tr', None))))"

declare runCh_loop.simps [code]

text \<open>
  The deferred calls of \<open>runCh\<close>, last registered first: the recovery, registered only
  when the options are calm, stops a panic and, if the recovered value is not nil
  (\<open>episode != nil\<close>), sends it on the stream as a \<open>RunnablePanic\<close>; then the stream is
  closed. A panic that is not recovered goes on and ends the program.
\<close>

definition deferred :: "options option \<Rightarrow> 'v unwinding \<Rightarrow> 'v unwinding" where
  "deferred os res =
     (case res of
        (i, tr, None) \<Rightarrow> (i, tr @ [Close], None)
      | (i, tr, Some episode) \<Rightarrow>
          if options_calm os
          then (i, tr @ (if episode \<noteq> NilV then [Send (RunnablePanic episode)] else [])
                      @ [Close], None)
          else (i, tr @ [Close], Some episode))"

definition runCh_from ::
  "'v world \<Rightarrow> context \<Rightarrow> 'v Instance \<Rightarrow> nat \<Rightarrow> Duration \<Rightarrow> 'v event list
     \<Rightarrow> 'v unwinding option" where
  "runCh_from w ctx i n after tr = map_option (deferred (opts i)) (runCh_loop w ctx i n after tr)"

text \<open>\<open>runCh\<close>: the first iteration waits for the zero delay.\<close>

definition runCh :: "'v world \<Rightarrow> context \<Rightarrow> 'v Instance \<Rightarrow> 'v unwinding option" where
  "runCh w ctx i = runCh_from w ctx i 0 0 []"

text \<open>The executions of a trace and the errors on its stream, in order.\<close>

fun executions :: "'v event list \<Rightarrow> nat" where
  "executions [] = 0"
| "executions (Invoke c # es) = Suc (executions es)"
| "executions (e # es) = executions es"

fun stream :: "'v event list \<Rightarrow> 'v error list" where
  "stream [] = []"
| "stream (Send e # es) = e # stream es"
| "stream (e # es) = stream es"

section \<open>Starting an instance\<close>

text \<open>
  \<open>Instance.run\<close>: the function under the \<open>sync.Once\<close> makes the channel and starts
  the goroutine \<open>go i.runCh(ctx, errCh)\<close>. A channel is given by its capacity; the
  result is the instance, the channel returned (nil is \<open>None\<close>) and the goroutine
  started, if any.
\<close>

record chan =
  capacity :: nat

datatype goroutine = Go_runCh "context" chan

definition run :: "'v Instance \<Rightarrow> context \<Rightarrow> 'v Instance \<times> chan option \<times> goroutine option" where
  "run i ctx =
     (if once i then (i, None, None)
      else (let chanSize = (case opts i of None \<Rightarrow> 0 | Some cfg \<Rightarrow> errChanSize cfg);
                errCh = \<lparr> capacity = chanSize \<rparr>
            in (i\<lparr>once := True\<rparr>, Some errCh, Some (Go_runCh ctx errCh))))"

definition Run :: "'v Instance \<Rightarrow> context \<Rightarrow> 'v Instance \<times> chan option \<times> goroutine option" where
  "Run i ctx = run i ctx"

text \<open>A series of calls of \<open>Run\<close> on one instance, with what each of them returns.\<close>

fun Run_all ::
  "'v Instance \<Rightarrow> context list \<Rightarrow> 'v Instance \<times> (chan option \<times> goroutine option) list" where
  "Run_all i [] = (i, [])"
| "Run_all i (ctx # ctxs) =
     (case Run i ctx of
        (i', errCh, started) \<Rightarrow>
          (case Run_all i' ctxs of (i'', rs) \<Rightarrow> (i'', (errCh, started) # rs)))"

section \<open>Notions used in the properties\<close>

text \<open>The same instance with the flag \<open>resetOnSuccess\<close> of its options set to \<open>b\<close>.\<close>

definition with_reset :: "bool \<Rightarrow> 'v Instance \<Rightarrow> 'v Instance" where
  "with_reset b i =
     i\<lparr>opts := map_option
                  (\<lambda>cfg. cfg\<lparr>restartable := (restartable cfg)\<lparr>resetOnSuccess := b\<rparr>\<rparr>)
                  (opts i)\<rparr>"



text \<open>An environment in which the parent context is never done.\<close>

definition undisturbed :: "'v world" where
  "undisturbed = \<lparr> select = (\<lambda>n d. Elapsed), clock = (\<lambda>n. int n) \<rparr>"

text \<open>Runnables that always succeed, always fail, and panic at once.\<close>

definition succeeding :: "'v Runnable" where
  "succeeding = (\<lambda>n ctx. Returns None)"

definition failing :: "'v Runnable" where
  "failing = (\<lambda>n ctx. Returns (Some (ErrorString ''failed'')))"



text \<open>An environment in which the parent context is cancelled from the start.\<close>

definition cancelled :: "'v world" where
  "cancelled = \<lparr> select = (\<lambda>n d. Done (Some (ErrorString ''context canceled''))),
                  clock = (\<lambda>n. int n) \<rparr>"

text \<open>
  Options in which a restart limit comes with a backoff function, as \<open>RestartLimit\<close>
  sets them.
\<close>

definition limit_has_backoff :: "options \<Rightarrow> bool" where
  "limit_has_backoff cfg =
     (restartLimit (restartable cfg) = 0 \<or> backoff (restartable cfg) \<noteq> None)"

section \<open>Unfolding the loop\<close>

text \<open>One equation for each way an iteration of the loop can go.\<close>

lemma loop_Done:
  "select w n a = Done cerr \<Longrightarrow>
   runCh_loop w ctx i n a tr = Some (i, tr @ (case cerr of None \<Rightarrow> [] | Some e \<Rightarrow> [Send e]), None)"
  by (subst runCh_loop.simps) simp

lemma loop_Panics:
  "select w n a = Elapsed \<Longrightarrow> execute i ctx (clock w n) n = (evs, Panics v) \<Longrightarrow>
   runCh_loop w ctx i n a tr = Some (i, tr @ evs, Some v)"
  by (subst runCh_loop.simps) simp

lemma loop_Returns:
  "select w n a = Elapsed \<Longrightarrow> execute i ctx (clock w n) n = (evs, Returns err) \<Longrightarrow>
   rerun i err = (i', d) \<Longrightarrow>
   runCh_loop w ctx i n a tr =
     (case d of
        Inl v \<Rightarrow> Some (i', tr @ evs @ (case err of None \<Rightarrow> [] | Some e \<Rightarrow> [Send e]), Some v)
      | Inr (again, after') \<Rightarrow>
          if again then runCh_loop w ctx i' (Suc n) after' (tr @ evs @ (case err of None \<Rightarrow> [] | Some e \<Rightarrow> [Send e]))
          else Some (i', tr @ evs @ (case err of None \<Rightarrow> [] | Some e \<Rightarrow> [Send e]), None))"
  by (subst runCh_loop.simps) (simp add: Let_def split: sum.splits prod.splits)

lemma execute_Some:
  "runnable i = Some f \<Longrightarrow>
   execute i ctx now n =
     ([Invoke (withContextTimeout i ctx now), Cancel (withContextTimeout i ctx now)],
      f n (withContextTimeout i ctx now))"
  by (simp add: execute_def Runnable_run_def Let_def)

lemma execute_None:
  "runnable i = None \<Longrightarrow>
   execute i ctx now n = ([Cancel (withContextTimeout i ctx now)], Panics (StringV NilRunnable))"
  by (simp add: execute_def Runnable_run_def Let_def)

lemma word_inc_unat: "x < (N::64 word) \<Longrightarrow> unat (x + 1) = Suc (unat x)"
  by unat_arith

lemma executions_append: "executions (xs @ ys) = executions xs + executions ys"
  by (induction xs rule: executions.induct) simp_all

lemma stream_append: "stream (xs @ ys) = stream xs @ stream ys"
  by (induction xs rule: stream.induct) simp_all

lemma rerun_opts: "opts (fst (rerun i err)) = opts i"
  by (cases "opts i"; cases err) (simp_all add: rerun_def Let_def split: option.splits)

lemma rerun_runnable: "runnable (fst (rerun i err)) = runnable i"
  by (cases "opts i"; cases err) (simp_all add: rerun_def Let_def split: option.splits)

section \<open>The rerun decision after a success\<close>

text \<open>
  Claim C2. After a successful execution (a nil error), when restart-on-failure is
  enabled, \<open>rerun\<close> leaves the failure counter at zero, whatever the value \<open>b\<close> of the
  flag \<open>resetOnSuccess\<close> of the options.
\<close>

theorem success_resets_failure_count:
  "restartOnError (restartable cfg) \<Longrightarrow>
   failedRuns (fst (rerun
     (i\<lparr>opts := Some (cfg\<lparr>restartable := (restartable cfg)\<lparr>resetOnSuccess := b\<rparr>\<rparr>)\<rparr>) None)) = 0"
  by (simp add: rerun_def Let_def)

text \<open>
  An instance with two failures behind it and \<open>resetOnSuccess\<close> unset: the counter is
  zero after a success.
\<close>

theorem success_resets_failure_count_witness:
  "failedRuns (fst (rerun
     ((New (Some succeeding) [Restart True, RestartLimit 3 None] :: unit Instance)
        \<lparr>failedRuns := 2\<rparr>) None)) = 0
   \<and> resetOnSuccess (restartable (configure [Restart True, RestartLimit 3 None])) = False"
proof -
  let ?cfg = "configure [Restart True, RestartLimit 3 None]"
  let ?i = "(New (Some succeeding) [Restart True, RestartLimit 3 None] :: unit Instance)\<lparr>failedRuns := 2\<rparr>"
  have r: "restartOnError (restartable ?cfg)"
    by (simp add: configure_def new_options_def)
  have f: "resetOnSuccess (restartable ?cfg) = False"
    by (simp add: configure_def new_options_def)
  have same: "?i\<lparr>opts := Some (?cfg\<lparr>restartable := (restartable ?cfg)\<lparr>resetOnSuccess := False\<rparr>\<rparr>)\<rparr> = ?i"
    by (simp add: New_def configure_def new_options_def)
  show ?thesis
    using success_resets_failure_count [OF r, where i = ?i and b = False] f by (simp only: same simp_thms)
qed


section \<open>Recurrence under a run limit\<close>

text \<open>The loop from any iteration on, with the runs that are left under the limit.\<close>

lemma recurring_successes:
  assumes cfg: "recur (recurring cfg)" "runLimit (constrained cfg) = N"
    and f: "\<And>n c. f n c = Returns None"
    and w: "\<And>n d. select w n d = Elapsed"
  shows "opts i = Some cfg \<Longrightarrow> runnable i = Some f \<Longrightarrow> runs i < N \<Longrightarrow> m = unat N - unat (runs i) \<Longrightarrow>
    \<exists>i'. runCh_loop w ctx i n a tr =
        Some (i', tr @ concat (map (\<lambda>k. [Invoke (withContextTimeout i ctx (clock w k)),
                                          Cancel (withContextTimeout i ctx (clock w k))]) [n..<n + m]), None)
      \<and> runs i' = N \<and> opts i' = opts i"
proof (induction m arbitrary: i n a tr)
  case 0
  then show ?case by (simp add: word_less_nat_alt)
next
  case (Suc m)
  let ?c = "withContextTimeout i ctx (clock w n)"
  have ex: "execute i ctx (clock w n) n = ([Invoke ?c, Cancel ?c], Returns None)"
    using execute_Some[OF Suc.prems(2)] f by simp
  obtain i' d where rr: "rerun i None = (i', d)" by (cases "rerun i None")
  have i': "opts i' = Some cfg" "runnable i' = Some f"
    using rerun_opts[of i None] rerun_runnable[of i None] rr Suc.prems by simp_all
  have runs': "runs i' = runs i + 1"
    using rr Suc.prems(1) by (auto simp: rerun_def Let_def split: if_splits)
  have N0: "N \<noteq> 0" using Suc.prems(3) by auto
  note step = loop_Returns[where tr = tr and ctx = ctx and a = a, OF w ex rr]
  have un: "unat (runs i') = Suc (unat (runs i))" using runs' word_inc_unat[OF Suc.prems(3)] by simp
  show ?case
  proof (cases "N \<le> runs i'")
    case True
    then have d: "d = Inr (False, 0)"
      using rr Suc.prems(1) cfg N0 by (auto simp: rerun_def Let_def split: if_splits)
    have rN: "runs i' = N" using True Suc.prems(3) un by (simp add: word_le_nat_alt word_less_nat_alt word_unat_eq_iff)
    have m0: "m = 0" using True Suc.prems(3,4) un by (simp add: word_le_nat_alt word_less_nat_alt)
    have "runCh_loop w ctx i n a tr = Some (i', tr @ [Invoke ?c, Cancel ?c], None)"
      using step by (simp add: d)
    moreover have "concat (map (\<lambda>k. [Invoke (withContextTimeout i ctx (clock w k)),
                                          Cancel (withContextTimeout i ctx (clock w k))]) [n..<n + Suc m])
         = [Invoke ?c, Cancel ?c]" by (simp add: m0)
    ultimately show ?thesis using rN i'(1) Suc.prems(1) by simp
  next
    case False
    then have d: "d = Inr (True, period (recurring cfg))"
      using rr Suc.prems(1) cfg N0 runs' by (auto simp: rerun_def Let_def split: if_splits)
    have lt: "runs i' < N" using False by simp
    have m: "m = unat N - unat (runs i')" using Suc.prems(4) un by simp
    from Suc.IH[OF i' lt m, of "Suc n" "period (recurring cfg)" "tr @ [Invoke ?c, Cancel ?c]"]
    obtain i'' where rest: "runCh_loop w ctx i' (Suc n) (period (recurring cfg)) (tr @ [Invoke ?c, Cancel ?c]) =
        Some (i'', (tr @ [Invoke ?c, Cancel ?c]) @ concat (map (\<lambda>k. [Invoke (withContextTimeout i' ctx (clock w k)),
                                          Cancel (withContextTimeout i' ctx (clock w k))]) [Suc n..<Suc n + m]), None)"
      "runs i'' = N" "opts i'' = opts i'" by blast
    have same: "\<And>k. withContextTimeout i' ctx (clock w k) = withContextTimeout i ctx (clock w k)"
      using i' Suc.prems(1) by (simp add: withContextTimeout_def)
    have "runCh_loop w ctx i n a tr =
        runCh_loop w ctx i' (Suc n) (period (recurring cfg)) (tr @ [Invoke ?c, Cancel ?c])"
      using step by (simp add: d)
    moreover have "[n..<n + Suc m] = n # [Suc n..<Suc n + m]" by (simp add: upt_rec)
    ultimately show ?thesis
      using rest i'(1) Suc.prems(1) by (simp add: same)
  qed
qed


lemma executions_iterations:
  "executions (concat (map (\<lambda>k. [Invoke (c k), Cancel (c k)]) ks)) = length ks"
  by (induction ks) simp_all

lemma stream_iterations:
  "stream (concat (map (\<lambda>k. [Invoke (c k), Cancel (c k)]) ks)) = []"
  by (induction ks) simp_all

text \<open>
  Claim C3. With recurrence enabled, a run limit \<open>N > 0\<close>, a fresh instance, a
  runnable that always succeeds and a parent context that is never done, the loop ends:
  the runnable has been executed exactly \<open>N\<close> times, no error was sent on the stream,
  and the stream is closed last, although recurrence asks for another run each time.
\<close>

theorem recurrence_stops_at_run_limit:
  assumes "opts i = Some cfg" and "recur (recurring cfg)"
    and "runLimit (constrained cfg) = N" and "N \<noteq> 0"
    and "runs i = 0" and "runnable i = Some f"
    and "\<And>n c. f n c = Returns None"
    and "\<And>n d. select w n d = Elapsed"
  shows "\<exists>i' tr. runCh w ctx i = Some (i', tr @ [Close], None)
           \<and> executions tr = unat N \<and> stream (tr @ [Close]) = [] \<and> runs i' = N"
proof -
  have lt: "runs i < N" using assms(4,5) by (simp add: word_neq_0_conv)
  have m: "unat N = unat N - unat (runs i)" using assms(5) by simp
  from recurring_successes[OF assms(2,3,7,8) assms(1,6) lt m, of ctx 0 0 "[]"]
  obtain i' where loop: "runCh_loop w ctx i 0 0 [] =
      Some (i', [] @ concat (map (\<lambda>k. [Invoke (withContextTimeout i ctx (clock w k)),
                                    Cancel (withContextTimeout i ctx (clock w k))]) [0..<0 + unat N]), None)"
    and r: "runs i' = N" by blast
  let ?tr = "concat (map (\<lambda>k. [Invoke (withContextTimeout i ctx (clock w k)),
                                    Cancel (withContextTimeout i ctx (clock w k))]) [0..<unat N])"
  have "runCh w ctx i = Some (i', ?tr @ [Close], None)"
    using loop by (simp add: runCh_def runCh_from_def deferred_def)
  moreover have "executions ?tr = unat N" by (simp add: executions_iterations)
  moreover have "stream (?tr @ [Close]) = []" by (simp add: stream_append stream_iterations)
  ultimately show ?thesis using r by blast
qed

text \<open>Three runs under \<open>Recur(true)\<close> and \<open>RunLimit(3)\<close>.\<close>

theorem recurrence_stops_at_run_limit_witness:
  "\<exists>i' tr. runCh undisturbed (Caller 0)
               (New (Some succeeding) [Recur True, RunLimit 3] :: unit Instance)
             = Some (i', tr @ [Close], None)
           \<and> executions tr = 3 \<and> stream (tr @ [Close]) = [] \<and> runs i' = 3"
  using recurrence_stops_at_run_limit
    [where i = "New (Some succeeding) [Recur True, RunLimit 3] :: unit Instance"
       and cfg = "configure [Recur True, RunLimit 3]" and N = 3 and f = succeeding
       and w = undisturbed and ctx = "Caller 0"]
  by (simp add: New_def configure_def new_options_def succeeding_def undisturbed_def)



section \<open>Restart under a restart limit\<close>

text \<open>The loop from any iteration on, with the failures that are left under the limit.\<close>

lemma executions_failures:
  "executions (concat (map (\<lambda>k. [Invoke (c k), Cancel (c k), Send (e k)]) ks)) = length ks"
  by (induction ks) simp_all

lemma stream_failures:
  "stream (concat (map (\<lambda>k. [Invoke (c k), Cancel (c k), Send (e k)]) ks)) = map e ks"
  by (induction ks) simp_all

lemma restarting_failures:
  assumes cfg: "restartOnError (restartable cfg)" "restartLimit (restartable cfg) = N"
      "backoff (restartable cfg) = Some b"
    and f: "\<And>n c. f n c = Returns (Some (e n c))"
    and w: "\<And>n d. select w n d = Elapsed"
  shows "opts i = Some cfg \<Longrightarrow> runnable i = Some f \<Longrightarrow> failedRuns i < N \<Longrightarrow>
    m = unat N - unat (failedRuns i) \<Longrightarrow>
    \<exists>i'. runCh_loop w ctx i n a tr =
        Some (i', tr @ concat (map (\<lambda>k. [Invoke (withContextTimeout i ctx (clock w k)),
                                          Cancel (withContextTimeout i ctx (clock w k)),
                                          Send (e k (withContextTimeout i ctx (clock w k)))])
                                  [n..<n + m]), None)
      \<and> failedRuns i' = N \<and> opts i' = opts i"
proof (induction m arbitrary: i n a tr)
  case 0
  then show ?case by (simp add: word_less_nat_alt)
next
  case (Suc m)
  let ?c = "withContextTimeout i ctx (clock w n)"
  let ?err = "Some (e n ?c)"
  let ?evs = "[Invoke ?c, Cancel ?c, Send (e n ?c)]"
  have ex: "execute i ctx (clock w n) n = ([Invoke ?c, Cancel ?c], Returns ?err)"
    using execute_Some[OF Suc.prems(2)] f by simp
  obtain i' d where rr: "rerun i ?err = (i', d)" by (cases "rerun i ?err")
  have i': "opts i' = Some cfg" "runnable i' = Some f"
    using rerun_opts[of i ?err] rerun_runnable[of i ?err] rr Suc.prems by simp_all
  have fr': "failedRuns i' = failedRuns i + 1"
    using rr Suc.prems(1) by (auto simp: rerun_def Let_def split: if_splits option.splits)
  have N0: "N \<noteq> 0" using Suc.prems(3) by auto
  note step = loop_Returns[where tr = tr and ctx = ctx and a = a, OF w ex rr]
  have un: "unat (failedRuns i') = Suc (unat (failedRuns i))"
    using fr' word_inc_unat[OF Suc.prems(3)] by simp
  show ?case
  proof (cases "failedRuns i' < N")
    case False
    then have d: "d = Inr (False, 0)"
      using rr Suc.prems(1) cfg N0 by (auto simp: rerun_def Let_def split: if_splits)
    have rN: "failedRuns i' = N"
      using False Suc.prems(3) un by (simp add: word_le_nat_alt word_less_nat_alt word_unat_eq_iff)
    have m0: "m = 0" using False Suc.prems(3,4) un by (simp add: word_le_nat_alt word_less_nat_alt)
    have stop: "runCh_loop w ctx i n a tr = Some (i', tr @ ?evs, None)"
      using step by (simp add: d)
    have conc: "concat (map (\<lambda>k. [Invoke (withContextTimeout i ctx (clock w k)),
                                          Cancel (withContextTimeout i ctx (clock w k)),
                                          Send (e k (withContextTimeout i ctx (clock w k)))]) [n..<n + Suc 0])
         = ?evs" by simp
    show ?thesis unfolding m0 conc stop using rN i'(1) Suc.prems(1) by simp
  next
    case True
    then have d: "d = Inr (True, b (failedRuns i'))"
      using rr Suc.prems(1) cfg N0 fr' by (auto simp: rerun_def Let_def split: if_splits)
    have m: "m = unat N - unat (failedRuns i')" using Suc.prems(4) un by simp
    from Suc.IH[OF i' True m, of "Suc n" "b (failedRuns i')" "tr @ ?evs"]
    obtain i'' where rest: "runCh_loop w ctx i' (Suc n) (b (failedRuns i')) (tr @ ?evs) =
        Some (i'', (tr @ ?evs) @ concat (map (\<lambda>k. [Invoke (withContextTimeout i' ctx (clock w k)),
                                          Cancel (withContextTimeout i' ctx (clock w k)),
                                          Send (e k (withContextTimeout i' ctx (clock w k)))]) [Suc n..<Suc n + m]), None)"
      "failedRuns i'' = N" "opts i'' = opts i'" by blast
    have same: "\<And>k. withContextTimeout i' ctx (clock w k) = withContextTimeout i ctx (clock w k)"
      using i' Suc.prems(1) by (simp add: withContextTimeout_def)
    have "runCh_loop w ctx i n a tr =
        runCh_loop w ctx i' (Suc n) (b (failedRuns i')) (tr @ ?evs)"
      using step by (simp add: d)
    moreover have "[n..<n + Suc m] = n # [Suc n..<Suc n + m]" by (simp add: upt_rec)
    ultimately show ?thesis
      using rest i'(1) Suc.prems(1) by (simp add: same)
  qed
qed

text \<open>Every configuration that \<open>New\<close> builds has a backoff function with its restart limit.\<close>

lemma apply_Option_backoff:
  "limit_has_backoff cfg \<Longrightarrow> limit_has_backoff (apply_Option opt cfg)"
  by (cases opt) (simp_all add: limit_has_backoff_def Let_def)

lemma foldl_backoff:
  "limit_has_backoff cfg \<Longrightarrow>
   limit_has_backoff (foldl (\<lambda>runnableOpts opt. apply_Option opt runnableOpts) cfg os)"
  by (induction os arbitrary: cfg) (simp_all add: apply_Option_backoff)

lemma configure_backoff: "limit_has_backoff (configure os)"
  unfolding configure_def by (rule foldl_backoff) (simp add: limit_has_backoff_def new_options_def)

text \<open>
  Claim C4. For a fresh instance made by \<open>New\<close> with restart-on-failure enabled and a
  restart limit \<open>N > 0\<close>, a runnable that always fails (its call number \<open>n\<close> with the
  error \<open>e n c\<close>) and a parent context that is never done, the loop ends: the runnable
  has been executed exactly \<open>N\<close> times, its \<open>N\<close> errors are on the stream in the order
  of the executions, and the stream is closed last.
\<close>

theorem restart_stops_at_restart_limit:
  assumes "i = New (Some f) os"
    and "restartOnError (restartable (configure os))"
    and "restartLimit (restartable (configure os)) = N" and "N \<noteq> 0"
    and "\<And>n c. f n c = Returns (Some (e n c))"
    and "\<And>n d. select w n d = Elapsed"
  shows "\<exists>i' tr. runCh w ctx i = Some (i', tr @ [Close], None)
           \<and> executions tr = unat N
           \<and> stream (tr @ [Close]) =
               map (\<lambda>k. e k (withContextTimeout i ctx (clock w k))) [0..<unat N]"
proof -
  obtain b where b: "backoff (restartable (configure os)) = Some b"
    using configure_backoff[of os] assms(3,4) by (auto simp: limit_has_backoff_def)
  have i: "opts i = Some (configure os)" "runnable i = Some f" "failedRuns i = 0"
    using assms(1) by (simp_all add: New_def)
  have lt: "failedRuns i < N" using assms(4) i(3) by (simp add: word_neq_0_conv)
  have m: "unat N = unat N - unat (failedRuns i)" using i(3) by simp
  let ?c = "\<lambda>k. withContextTimeout i ctx (clock w k)"
  let ?tr = "concat (map (\<lambda>k. [Invoke (?c k), Cancel (?c k), Send (e k (?c k))]) [0..<unat N])"
  from restarting_failures[OF assms(2,3) b assms(5,6) i(1,2) lt m, of ctx 0 0 "[]"]
  obtain i' where "runCh_loop w ctx i 0 0 [] = Some (i', [] @ ?tr, None)"
    by auto
  then have "runCh w ctx i = Some (i', ?tr @ [Close], None)"
    by (simp add: runCh_def runCh_from_def deferred_def)
  moreover have "executions ?tr = unat N" by (simp add: executions_failures)
  moreover have "stream (?tr @ [Close]) = map (\<lambda>k. e k (?c k)) [0..<unat N]"
    by (simp add: stream_append stream_failures[where e = "\<lambda>k. e k (?c k)"])
  ultimately show ?thesis by blast
qed

text \<open>Three failures under \<open>Restart(true)\<close> and \<open>RestartLimit(3, nil)\<close>.\<close>

theorem restart_stops_at_restart_limit_witness:
  "\<exists>i' tr. runCh undisturbed (Caller 0)
               (New (Some failing) [Restart True, RestartLimit 3 None] :: unit Instance)
             = Some (i', tr @ [Close], None)
           \<and> executions tr = 3
           \<and> stream (tr @ [Close]) =
               [ErrorString ''failed'', ErrorString ''failed'', ErrorString ''failed'']"
proof -
  have three: "[0..<3] = [0, 1, 2]" by (simp add: upt_rec)
  show ?thesis
    using restart_stops_at_restart_limit
      [where i = "New (Some failing) [Restart True, RestartLimit 3 None] :: unit Instance"
         and f = failing and os = "[Restart True, RestartLimit 3 None]" and N = 3
         and e = "\<lambda>n c. ErrorString ''failed''" and w = undisturbed and ctx = "Caller 0"]
    by (simp add: configure_def new_options_def failing_def undisturbed_def three)
qed



section \<open>Cancellation of the parent context\<close>

text \<open>
  Claim C5. At every iteration \<open>n\<close>, whatever the instance and the trace so far, if the
  parent context is done during the wait, then the run ends there: the error of the
  parent context is sent once (nothing is sent when it is nil), the stream is closed,
  the instance is unchanged and the runnable is not executed again.
\<close>

theorem parent_cancellation_ends_loop:
  assumes "select w n after = Done cerr"
  shows "runCh_from w ctx i n after tr =
           Some (i, tr @ (case cerr of None \<Rightarrow> [] | Some e \<Rightarrow> [Send e]) @ [Close], None)
         \<and> executions (tr @ (case cerr of None \<Rightarrow> [] | Some e \<Rightarrow> [Send e]) @ [Close])
             = executions tr
         \<and> stream (tr @ (case cerr of None \<Rightarrow> [] | Some e \<Rightarrow> [Send e]) @ [Close])
             = stream tr @ (case cerr of None \<Rightarrow> [] | Some e \<Rightarrow> [e])"
proof -
  have "runCh_from w ctx i n after tr =
           Some (i, tr @ (case cerr of None \<Rightarrow> [] | Some e \<Rightarrow> [Send e]) @ [Close], None)"
    using loop_Done[OF assms, of ctx i tr] by (simp add: runCh_from_def deferred_def)
  then show ?thesis
    by (cases cerr) (simp_all add: executions_append stream_append)
qed

text \<open>A parent context that is cancelled before the first execution.\<close>

theorem parent_cancellation_ends_loop_witness:
  "runCh cancelled (Caller 0) (New (Some succeeding) [Recur True] :: unit Instance) =
     Some (New (Some succeeding) [Recur True], [Send (ErrorString ''context canceled''), Close], None)"
  using parent_cancellation_ends_loop
    [where w = "cancelled :: unit world" and n = 0 and after = 0
       and cerr = "Some (ErrorString ''context canceled'')" and ctx = "Caller 0"
       and i = "New (Some succeeding) [Recur True]" and tr = "[]"]
  by (simp add: cancelled_def runCh_def)


section \<open>Panics\<close>





text \<open>
  Claim C8, as stated, fails: with panic containment enabled, the panic of a nil runnable
  is recovered like any other and sent on the outcome stream.
\<close>

theorem nil_runnable_contained_counterexample:
  "runCh undisturbed (Caller 0) (New None [Recover True] :: unit Instance) =
     Some (New None [Recover True],
           [Cancel (WithCancel (Caller 0)), Send (RunnablePanic (StringV NilRunnable)), Close],
           None)"
  by (simp add: runCh_def runCh_from_def loop_Panics [OF _ execute_None] undisturbed_def
        New_def configure_def new_options_def withContextTimeout_def deferred_def options_calm_def)

text \<open>
  Claim C8, amended. Running a nil runnable panics at once with the sentinel
  \<open>attempted to run a nil Runnable\<close>, a panic and not a returned error. Without panic
  containment nothing is sent on the stream: it is closed and the panic goes on past
  the loop. With panic containment the panic is sent once on the stream as a
  \<open>RunnablePanic\<close> of the sentinel, and the stream is closed.
\<close>

theorem nil_runnable_fails_loudly:
  assumes "runnable i = None"
  shows "Runnable_run (runnable i) n c = Panics (StringV ''attempted to run a nil Runnable'')
    \<and> (select w n after = Elapsed \<longrightarrow>
         runCh_from w ctx i n after tr =
           Some (if options_calm (opts i)
                 then (i, tr @ [Cancel (withContextTimeout i ctx (clock w n)),
                                Send (RunnablePanic (StringV NilRunnable)), Close], None)
                 else (i, tr @ [Cancel (withContextTimeout i ctx (clock w n)), Close],
                       Some (StringV NilRunnable))))"
proof -
  have "runCh_from w ctx i n after tr =
          Some (if options_calm (opts i)
                then (i, tr @ [Cancel (withContextTimeout i ctx (clock w n)),
                               Send (RunnablePanic (StringV NilRunnable)), Close], None)
                else (i, tr @ [Cancel (withContextTimeout i ctx (clock w n)), Close],
                      Some (StringV NilRunnable)))"
    if "select w n after = Elapsed"
    using loop_Panics[OF that execute_None[OF assms], of ctx tr]
    by (simp add: runCh_from_def deferred_def)
  then show ?thesis using assms by (simp add: NilRunnable_def Runnable_run_def)
qed

text \<open>A nil runnable under the default options.\<close>

theorem nil_runnable_fails_loudly_witness:
  "Runnable_run (runnable (New None [] :: unit Instance)) 0 (WithCancel (Caller 0)) =
     Panics (StringV ''attempted to run a nil Runnable'')
   \<and> runCh undisturbed (Caller 0) (New None [] :: unit Instance) =
       Some (New None [], [Cancel (WithCancel (Caller 0)), Close], Some (StringV NilRunnable))"
  using nil_runnable_fails_loudly
    [where i = "New None [] :: unit Instance" and w = undisturbed and n = 0 and after = 0
       and ctx = "Caller 0" and tr = "[]" and c = "WithCancel (Caller 0)"]
  by (simp add: New_def configure_def new_options_def options_calm_def undisturbed_def
        withContextTimeout_def runCh_def)


section \<open>A nil backoff function\<close>

text \<open>\<open>RestartLimit\<close> with a nil backoff function sets the constant zero delay.\<close>

lemma RestartLimit_nil_backoff:
  "backoff (restartable (apply_Option (RestartLimit limit None) cfg)) = Some (ConstantBackoff 0)"
  "ConstantBackoff d count = d"
  by (simp_all add: Let_def ConstantBackoff_def)

text \<open>
  Claim C1 does not hold of the code. \<open>Restart(true)\<close> alone leaves the backoff function
  nil; after the first failure \<open>rerun\<close> calls it, which is a runtime panic, where the
  comment of the field \<open>backoff\<close> promises an immediate restart (as \<open>RestartLimit\<close>
  arranges by replacing nil with \<open>ConstantBackoff(0)\<close>). The run ends after one
  execution with the panic unwinding the goroutine.
\<close>

theorem nil_backoff_faults:
  "rerun (New (Some failing) [Restart True] :: unit Instance) (Some (ErrorString ''failed'')) =
     ((New (Some failing) [Restart True])\<lparr>failedRuns := 1\<rparr>, Inl nil_dereference)
   \<and> runCh undisturbed (Caller 0) (New (Some failing) [Restart True] :: unit Instance) =
       Some ((New (Some failing) [Restart True])\<lparr>failedRuns := 1\<rparr>,
             [Invoke (WithCancel (Caller 0)), Cancel (WithCancel (Caller 0)),
              Send (ErrorString ''failed''), Close],
             Some nil_dereference)"
proof -
  let ?i = "New (Some failing) [Restart True] :: unit Instance"
  have rr: "rerun ?i (Some (ErrorString ''failed'')) = (?i\<lparr>failedRuns := 1\<rparr>, Inl nil_dereference)"
    by (simp add: rerun_def New_def configure_def new_options_def Let_def)
  have sel: "select (undisturbed :: unit world) 0 0 = Elapsed" by (simp add: undisturbed_def)
  have ex: "execute ?i (Caller 0) (clock undisturbed 0) 0 =
      ([Invoke (WithCancel (Caller 0)), Cancel (WithCancel (Caller 0))],
       Returns (Some (ErrorString ''failed'')))"
    by (simp add: execute_def New_def configure_def new_options_def Let_def
          withContextTimeout_def Runnable_run_def failing_def)
  show ?thesis
    using loop_Returns[OF sel ex rr, of "[]"] rr
    by (simp add: runCh_def runCh_from_def deferred_def options_calm_def New_def
          configure_def new_options_def)
qed



section \<open>Facts about a loop that has ended\<close>

text \<open>
  Induction over the iterations of a loop that returns, and what each of them preserves.
\<close>

lemmas runCh_loop_induct = runCh_loop.raw_induct [rotated 1, consumes 1, case_names iteration]

lemma rerun_once: "once (fst (rerun i err)) = once i"
  by (cases "opts i"; cases err) (simp_all add: rerun_def Let_def split: option.splits)

text \<open>The ways an iteration that led to a result can have gone.\<close>

lemma iteration_cases:
  assumes "(case select w n a of
        Done cerr \<Rightarrow> Some (i, tr @ (case cerr of None \<Rightarrow> [] | Some e \<Rightarrow> [Send e]), None)
      | Elapsed \<Rightarrow>
          (case execute i ctx (clock w n) n of
             (evs, Panics v) \<Rightarrow> Some (i, tr @ evs, Some v)
           | (evs, Returns err) \<Rightarrow>
               (let tr' = tr @ evs @ (case err of None \<Rightarrow> [] | Some e \<Rightarrow> [Send e])
                in case rerun i err of
                     (i', Inl v) \<Rightarrow> Some (i', tr', Some v)
                   | (i', Inr (again, after')) \<Rightarrow>
                       if again then loop w ctx i' (Suc n) after' tr'
                       else Some (i', tr', None)))) = Some res"
  obtains
    (cancelled) cerr where "select w n a = Done cerr"
      "res = (i, tr @ (case cerr of None \<Rightarrow> [] | Some e \<Rightarrow> [Send e]), None)"
  | (panicked) evs v where "select w n a = Elapsed"
      "execute i ctx (clock w n) n = (evs, Panics v)" "res = (i, tr @ evs, Some v)"
  | (fault) evs err i' v where "select w n a = Elapsed"
      "execute i ctx (clock w n) n = (evs, Returns err)" "rerun i err = (i', Inl v)"
      "res = (i', tr @ evs @ (case err of None \<Rightarrow> [] | Some e \<Rightarrow> [Send e]), Some v)"
  | (stop) evs err i' after' where "select w n a = Elapsed"
      "execute i ctx (clock w n) n = (evs, Returns err)" "rerun i err = (i', Inr (False, after'))"
      "res = (i', tr @ evs @ (case err of None \<Rightarrow> [] | Some e \<Rightarrow> [Send e]), None)"
  | (again) evs err i' after' where "select w n a = Elapsed"
      "execute i ctx (clock w n) n = (evs, Returns err)" "rerun i err = (i', Inr (True, after'))"
      "loop w ctx i' (Suc n) after' (tr @ evs @ (case err of None \<Rightarrow> [] | Some e \<Rightarrow> [Send e])) = Some res"
  using assms
  by (auto simp: Let_def split: waited.splits prod.splits outcome.splits sum.splits if_splits)

lemma rerun_onceD: "rerun i err = (i', d) \<Longrightarrow> once i' = once i"
  using rerun_once[of i err] by simp

lemma runCh_loop_once:
  "runCh_loop w ctx i n a tr = Some res \<Longrightarrow> once (fst res) = once i"
proof (induction w ctx i n a tr res rule: runCh_loop_induct)
  case (iteration loop w ctx i n a tr res)
  from iteration(2) show ?case
  proof (cases rule: iteration_cases)
    case (cancelled cerr)
    then show ?thesis by simp
  next
    case (panicked evs v)
    then show ?thesis by simp
  next
    case (fault evs err i' v)
    then show ?thesis using rerun_onceD by simp
  next
    case (stop evs err i' after')
    then show ?thesis using rerun_onceD by simp
  next
    case (again evs err i' after')
    then show ?thesis using iteration(1) rerun_onceD by simp
  qed
qed

lemma Run_all_started:
  "once i \<Longrightarrow> Run_all i ctxs = (i, replicate (length ctxs) (None, None))"
  by (induction ctxs) (simp_all add: Run_def run_def)

section \<open>Starting at most once\<close>

text \<open>
  Claim C7. On an instance that has not been started, the first call of \<open>Run\<close> makes the
  channel, starts the goroutine of the loop on it and returns it. Every later call, in
  any number and also after the loop has ended, returns a nil channel and starts
  nothing, so the runnable is not executed for it.
\<close>

theorem Run_starts_once:
  assumes "\<not> once i"
  shows "\<exists>errCh i1. Run i ctx = (i1, Some errCh, Some (Go_runCh ctx errCh))
           \<and> (\<forall>ctxs. snd (Run_all i1 ctxs) = replicate (length ctxs) (None, None))
           \<and> (\<forall>w c res ctxs. runCh w c i1 = Some res \<longrightarrow>
                  snd (Run_all (fst res) ctxs) = replicate (length ctxs) (None, None))"
proof -
  let ?ch = "\<lparr> capacity = (case opts i of None \<Rightarrow> 0 | Some cfg \<Rightarrow> errChanSize cfg) \<rparr>"
  let ?i1 = "i\<lparr>once := True\<rparr>"
  have first: "Run i ctx = (?i1, Some ?ch, Some (Go_runCh ctx ?ch))"
    using assms by (simp add: Run_def run_def Let_def)
  have later: "snd (Run_all ?i1 ctxs) = replicate (length ctxs) (None, None)" for ctxs
    by (simp add: Run_all_started)
  have after: "snd (Run_all (fst res) ctxs) = replicate (length ctxs) (None, None)"
    if "runCh w c ?i1 = Some res" for w c res ctxs
  proof -
    from that obtain res' where l: "runCh_loop w c ?i1 0 0 [] = Some res'"
      and r: "res = deferred (opts ?i1) res'"
      by (auto simp: runCh_def runCh_from_def)
    have "fst res = fst res'" using r
      by (cases res') (auto simp: deferred_def split: option.splits)
    then have "once (fst res)" using runCh_loop_once[OF l] by simp
    then show ?thesis by (simp add: Run_all_started)
  qed
  show ?thesis using first later after by blast
qed

text \<open>
  An instance as \<open>New\<close> returns it, with a buffer of two errors: the first call, two
  later calls, the run of the loop, and a call after it.
\<close>

theorem Run_starts_once_witness:
  "Run (New (Some succeeding) [WithChanBuffer 2] :: unit Instance) (Caller 0) =
     ((New (Some succeeding) [WithChanBuffer 2])\<lparr>once := True\<rparr>,
      Some \<lparr>capacity = 2\<rparr>, Some (Go_runCh (Caller 0) \<lparr>capacity = 2\<rparr>))
   \<and> snd (Run_all ((New (Some succeeding) [WithChanBuffer 2] :: unit Instance)\<lparr>once := True\<rparr>)
          [Caller 1, Caller 2]) = [(None, None), (None, None)]
   \<and> runCh undisturbed (Caller 0)
        ((New (Some succeeding) [WithChanBuffer 2] :: unit Instance)\<lparr>once := True\<rparr>) =
       Some ((New (Some succeeding) [WithChanBuffer 2])\<lparr>once := True, runs := 1\<rparr>,
             [Invoke (WithCancel (Caller 0)), Cancel (WithCancel (Caller 0)), Close], None)
   \<and> snd (Run_all ((New (Some succeeding) [WithChanBuffer 2] :: unit Instance)
                      \<lparr>once := True, runs := 1\<rparr>) [Caller 3]) = [(None, None)]"
proof -
  let ?i = "New (Some succeeding) [WithChanBuffer 2] :: unit Instance"
  let ?i1 = "?i\<lparr>once := True\<rparr>"
  let ?c = "WithCancel (Caller 0)"
  let ?res = "(?i\<lparr>once := True, runs := 1\<rparr>, [Invoke ?c, Cancel ?c, Close],
               None :: unit panic_value option)"
  have fresh: "\<not> once ?i" by (simp add: New_def)
  have sel: "select (undisturbed :: unit world) 0 0 = Elapsed" by (simp add: undisturbed_def)
  have ex: "execute ?i1 (Caller 0) (clock undisturbed 0) 0 = ([Invoke ?c, Cancel ?c], Returns None)"
    by (simp add: execute_def New_def configure_def new_options_def Let_def
          withContextTimeout_def Runnable_run_def succeeding_def)
  have rr: "rerun ?i1 None = (?i\<lparr>once := True, runs := 1\<rparr>, Inr (False, 0))"
    by (simp add: rerun_def New_def configure_def new_options_def Let_def)
  have ran: "runCh undisturbed (Caller 0) ?i1 = Some ?res"
    using loop_Returns[OF sel ex rr, of "[]"]
    by (simp add: runCh_def runCh_from_def deferred_def New_def)
  obtain errCh i1 where
    first: "Run ?i (Caller 0) = (i1, Some errCh, Some (Go_runCh (Caller 0) errCh))"
    and later: "\<forall>ctxs. snd (Run_all i1 ctxs) = replicate (length ctxs) (None, None)"
    and after: "\<forall>w c res ctxs. runCh w c i1 = Some res \<longrightarrow>
                  snd (Run_all (fst res) ctxs) = replicate (length ctxs) (None, None)"
    using Run_starts_once [OF fresh, of "Caller 0"] by blast
  have i1: "i1 = ?i1" and ch: "errCh = \<lparr>capacity = 2\<rparr>"
    using first by (simp_all add: Run_def run_def New_def configure_def new_options_def Let_def)
  have "snd (Run_all ?i1 [Caller 1, Caller 2]) = [(None, None), (None, None)]"
    using later[rule_format, of "[Caller 1, Caller 2]"] i1 by simp
  moreover have "snd (Run_all (fst ?res) [Caller 3]) = [(None, None)]"
    using after[rule_format, of undisturbed "Caller 0" ?res "[Caller 3]"] ran i1 by simp
  ultimately show ?thesis using first ran i1 ch by simp
qed


section \<open>The context of an execution\<close>













section \<open>The flag \<open>resetOnSuccess\<close>\<close>

lemma execute_with_reset: "execute (with_reset b i) ctx now n = execute i ctx now n"
  by (cases "opts i") (simp_all add: execute_def withContextTimeout_def with_reset_def)

lemma rerun_with_reset:
  "rerun (with_reset b i) err = (with_reset b (fst (rerun i err)), snd (rerun i err))"
  by (cases "opts i"; cases err) (simp_all add: rerun_def with_reset_def Let_def split: option.splits)

lemma rerun_with_resetD:
  "rerun i err = (i', d) \<Longrightarrow> rerun (with_reset b i) err = (with_reset b i', d)"
  by (simp add: rerun_with_reset)

lemma loop_with_reset:
  "runCh_loop w ctx i n a tr = Some res \<Longrightarrow>
   runCh_loop w ctx (with_reset b i) n a tr = Some (with_reset b (fst res), snd res)"
proof (induction w ctx i n a tr res rule: runCh_loop_induct)
  case (iteration loop w ctx i n a tr res)
  from iteration(2) show ?case
  proof (cases rule: iteration_cases)
    case (cancelled cerr)
    then show ?thesis using loop_Done[OF cancelled(1), of ctx "with_reset b i" tr] by simp
  next
    case (panicked evs v)
    have "execute (with_reset b i) ctx (clock w n) n = (evs, Panics v)"
      using panicked(2) by (simp add: execute_with_reset)
    from loop_Panics[OF panicked(1) this, of tr] show ?thesis using panicked(3) by simp
  next
    case (fault evs err i' v)
    have ex: "execute (with_reset b i) ctx (clock w n) n = (evs, Returns err)"
      using fault(2) by (simp add: execute_with_reset)
    from loop_Returns[OF fault(1) ex rerun_with_resetD[OF fault(3)], of tr]
    show ?thesis using fault(4) by simp
  next
    case (stop evs err i' after')
    have ex: "execute (with_reset b i) ctx (clock w n) n = (evs, Returns err)"
      using stop(2) by (simp add: execute_with_reset)
    from loop_Returns[OF stop(1) ex rerun_with_resetD[OF stop(3)], of tr]
    show ?thesis using stop(4) by simp
  next
    case (again evs err i' after')
    have ex: "execute (with_reset b i) ctx (clock w n) n = (evs, Returns err)"
      using again(2) by (simp add: execute_with_reset)
    from loop_Returns[OF again(1) ex rerun_with_resetD[OF again(3)], of tr]
    show ?thesis using iteration(1)[OF again(4)] by simp
  qed
qed

lemma loop_with_reset_back:
  "runCh_loop w ctx j n a tr = Some res \<Longrightarrow> j = with_reset b i \<Longrightarrow>
   \<exists>i'. runCh_loop w ctx i n a tr = Some (i', snd res) \<and> fst res = with_reset b i'"
proof (induction w ctx j n a tr res arbitrary: i rule: runCh_loop_induct)
  case (iteration loop w ctx j n a tr res)
  note j = iteration(3)
  from iteration(2) show ?case
  proof (cases rule: iteration_cases)
    case (cancelled cerr)
    then show ?thesis using loop_Done[OF cancelled(1), of ctx i tr] j by simp
  next
    case (panicked evs v)
    have "execute i ctx (clock w n) n = (evs, Panics v)"
      using panicked(2) j by (simp add: execute_with_reset)
    from loop_Panics[OF panicked(1) this, of tr] show ?thesis using panicked(3) j by simp
  next
    case (fault evs err j' v)
    have ex: "execute i ctx (clock w n) n = (evs, Returns err)"
      using fault(2) j by (simp add: execute_with_reset)
    obtain i' d where rr: "rerun i err = (i', d)" by (cases "rerun i err")
    have "j' = with_reset b i'" "d = Inl v"
      using rerun_with_resetD[OF rr, of b] fault(3) j by simp_all
    then show ?thesis using loop_Returns[OF fault(1) ex rr, of tr] fault(4) by simp
  next
    case (stop evs err j' after')
    have ex: "execute i ctx (clock w n) n = (evs, Returns err)"
      using stop(2) j by (simp add: execute_with_reset)
    obtain i' d where rr: "rerun i err = (i', d)" by (cases "rerun i err")
    have "j' = with_reset b i'" "d = Inr (False, after')"
      using rerun_with_resetD[OF rr, of b] stop(3) j by simp_all
    then show ?thesis using loop_Returns[OF stop(1) ex rr, of tr] stop(4) by simp
  next
    case (again evs err j' after')
    have ex: "execute i ctx (clock w n) n = (evs, Returns err)"
      using again(2) j by (simp add: execute_with_reset)
    obtain i' d where rr: "rerun i err = (i', d)" by (cases "rerun i err")
    have j': "j' = with_reset b i'" and d: "d = Inr (True, after')"
      using rerun_with_resetD[OF rr, of b] again(3) j by simp_all
    from iteration(1)[OF again(4) j'] show ?thesis
      using loop_Returns[OF again(1) ex rr, of tr] d by simp
  qed
qed

lemma deferred_with_reset:
  "deferred (opts (with_reset b i)) (with_reset b i', tr, p) =
     (case deferred (opts i) (i', tr, p) of (i'', tr', p') \<Rightarrow> (with_reset b i'', tr', p'))"
  by (cases "opts i"; cases p) (simp_all add: deferred_def with_reset_def options_calm_def)

text \<open>
  Claim C10. Setting the flag \<open>resetOnSuccess\<close> of an instance to any value \<open>b\<close>
  changes nothing but the flag: \<open>rerun\<close> takes the same decision with the same delay
  and leaves the same counters, and a whole run, in any environment, ends (or does not
  end) alike, with the same trace, hence the same errors on the stream, the same
  panic if any, and the same final counters.
\<close>

theorem resetOnSuccess_never_read:
  "rerun (with_reset b i) err = (with_reset b (fst (rerun i err)), snd (rerun i err))
   \<and> runCh w ctx (with_reset b i) =
       map_option (\<lambda>(i', tr, p). (with_reset b i', tr, p)) (runCh w ctx i)
   \<and> runs (with_reset b i') = runs i' \<and> failedRuns (with_reset b i') = failedRuns i'"
proof -
  have "runCh_loop w ctx (with_reset b i) 0 0 [] =
      map_option (\<lambda>(i', tr, p). (with_reset b i', tr, p)) (runCh_loop w ctx i 0 0 [])"
  proof (cases "runCh_loop w ctx i 0 0 []")
    case None
    show ?thesis
    proof (cases "runCh_loop w ctx (with_reset b i) 0 0 []")
      case (Some res)
      from loop_with_reset_back[OF Some refl] None show ?thesis by simp
    qed (simp add: None)
  next
    case (Some res)
    from loop_with_reset[OF Some, of b] Some show ?thesis by (cases res) simp
  qed
  then have "runCh w ctx (with_reset b i) =
       map_option (\<lambda>(i', tr, p). (with_reset b i', tr, p)) (runCh w ctx i)"
    by (cases "runCh_loop w ctx i 0 0 []")
       (auto simp: runCh_def runCh_from_def deferred_with_reset split: prod.splits)
  moreover have "runs (with_reset b i') = runs i'" "failedRuns (with_reset b i') = failedRuns i'"
    by (simp_all add: with_reset_def)
  ultimately show ?thesis using rerun_with_reset[of b i err] by simp
qed

text \<open>The same run with and without \<open>ResetOnSuccess(true)\<close>.\<close>

theorem resetOnSuccess_never_read_witness:
  "runCh undisturbed (Caller 0)
     (New (Some failing) [Restart True, RestartLimit 2 None, ResetOnSuccess True] :: unit Instance) =
   map_option (\<lambda>(i', tr, p). (with_reset True i', tr, p))
     (runCh undisturbed (Caller 0) (New (Some failing) [Restart True, RestartLimit 2 None]))"
proof -
  have "with_reset True (New (Some failing) [Restart True, RestartLimit 2 None] :: unit Instance) =
      New (Some failing) [Restart True, RestartLimit 2 None, ResetOnSuccess True]"
    by (simp add: with_reset_def New_def configure_def new_options_def)
  then show ?thesis
    using resetOnSuccess_never_read
      [where b = True and i = "New (Some failing) [Restart True, RestartLimit 2 None] :: unit Instance"
         and w = undisturbed and ctx = "Caller 0" and err = None
         and i' = "New (Some failing) [] :: unit Instance"]
    by simp
qed


end
